theory Spec2Isabelle
  imports Complex_Main "HOL-Library.AList"
begin

section \<open>The fixed-window rate limiter of \<^verbatim>\<open>rate_limiter.py\<close>\<close>

text \<open>
  The class \<^verbatim>\<open>RateLimiter\<close> keeps two configuration attributes and one dictionary
  \<^verbatim>\<open>user_requests\<close> from user id to the tuple \<^verbatim>\<open>(window_start, request_count)\<close>.
  Every method body runs under one lock, so each call is one atomic step on the object;
  a method is modelled as a function from the object (and the clock readings the body
  takes with \<^verbatim>\<open>time.time()\<close>) to its return value and the object afterwards.

  Timestamps and durations are the real numbers the floats denote; the rounding of
  float arithmetic is not modelled, and the one place where the arithmetic raises is
  modelled apart, in \<open>get_status_py\<close>. The attribute \<^verbatim>\<open>window_size\<close> is annotated
  \<^verbatim>\<open>int\<close> and only ever compared with and subtracted from clock differences; it is a
  real here, which covers the integers. The dictionary is an association list in insertion
  order, as a Python \<^verbatim>\<open>dict\<close> is: \<^const>\<open>AList.update\<close> overwrites the value of a
  key in place and appends a new key at the end.
\<close>

subsection \<open>Data\<close>

type_synonym store = "(string \<times> (real \<times> int)) list"

record limiter =
  max_requests :: int
  window_size :: real
  user_requests :: store

datatype error = ValueError string | OverflowError string

text \<open>
  The dictionary returned by \<^verbatim>\<open>get_all_users_status\<close> for one user has three keys;
  the one returned by \<^verbatim>\<open>get_status\<close> has these three and four more. The key
  \<^verbatim>\<open>"window_size"\<close> of the latter is the field \<open>status_window_size\<close>.
\<close>

record partial_status =
  requests_made :: int
  requests_remaining :: int
  time_until_reset :: real

record status = partial_status +
  user_id :: string
  window_start :: real
  limit :: int
  status_window_size :: real

subsection \<open>Builtins\<close>

text \<open>
  \<^verbatim>\<open>round(x, 2)\<close>: the nearest multiple of one hundredth, a tie going to the even one.
\<close>

definition round_half_even :: "real \<Rightarrow> int" where
  "round_half_even y =
     (let f = \<lfloor>y\<rfloor>; d = y - of_int f
      in if d < 1 / 2 then f else if 1 / 2 < d then f + 1
         else if even f then f else f + 1)"

definition py_round2 :: "real \<Rightarrow> real" where
  "py_round2 x = of_int (round_half_even (x * 100)) / 100"

text \<open>
  \<^verbatim>\<open>self.user_requests[user_id]\<close> on a \<^verbatim>\<open>defaultdict(lambda: (0, 0))\<close>: a missing
  key is first stored with the default, then read.
\<close>

definition getitem :: "store \<Rightarrow> string \<Rightarrow> (real \<times> int) \<times> store" where
  "getitem d k =
     (case map_of d k of
        Some v \<Rightarrow> (v, d)
      | None \<Rightarrow> ((0, 0), AList.update k (0, 0) d))"

subsection \<open>The methods\<close>

definition init :: "int \<Rightarrow> real \<Rightarrow> error + limiter" where
  "init max_requests' window_size' =
     (if max_requests' \<le> 0 then Inl (ValueError ''max_requests must be greater than 0'')
      else if window_size' \<le> 0 then Inl (ValueError ''window_size must be greater than 0'')
      else Inr \<lparr>max_requests = max_requests', window_size = window_size',
                user_requests = []\<rparr>)"

definition is_allowed :: "limiter \<Rightarrow> real \<Rightarrow> string \<Rightarrow> bool \<times> limiter" where
  "is_allowed L current_time uid =
     (let ((window_start0, request_count0), d1) = getitem (user_requests L) uid;
          time_elapsed = current_time - window_start0;
          window_expired = (time_elapsed \<ge> window_size L);
          (window_start1, request_count1, d2) =
            (if window_expired
             then (current_time, 0, AList.update uid (current_time, 0) d1)
             else (window_start0, request_count0, d1))
      in if request_count1 < max_requests L
         then (let new_count = request_count1 + 1
               in (True, L\<lparr>user_requests :=
                             AList.update uid (window_start1, new_count) d2\<rparr>))
         else (False, L\<lparr>user_requests := d2\<rparr>))"

definition get_status :: "limiter \<Rightarrow> real \<Rightarrow> string \<Rightarrow> status \<times> limiter" where
  "get_status L current_time uid =
     (let ((window_start0, request_count0), d1) = getitem (user_requests L) uid;
          time_elapsed = current_time - window_start0;
          (window_start1, request_count1) =
            (if time_elapsed \<ge> window_size L then (current_time, 0)
             else (window_start0, request_count0));
          remaining = max_requests L - request_count1;
          until_reset = window_size L - (current_time - window_start1)
      in (\<lparr>requests_made = request_count1,
           requests_remaining = remaining,
           time_until_reset = py_round2 until_reset,
           user_id = uid,
           window_start = window_start1,
           limit = max_requests L,
           status_window_size = window_size L\<rparr>,
          L\<lparr>user_requests := d1\<rparr>))"

definition reset_user :: "limiter \<Rightarrow> string \<Rightarrow> limiter" where
  "reset_user L uid = L\<lparr>user_requests := AList.update uid (0, 0) (user_requests L)\<rparr>"

definition reset_all :: "limiter \<Rightarrow> limiter" where
  "reset_all L = L\<lparr>user_requests := []\<rparr>"

text \<open>
  \<^verbatim>\<open>get_all_users_status\<close> reads the clock once for every entry of the dictionary;
  \<open>clock uid\<close> is the reading taken for the entry of \<open>uid\<close>.
\<close>

definition get_all_users_status ::
  "limiter \<Rightarrow> (string \<Rightarrow> real) \<Rightarrow> (string \<times> partial_status) list \<times> limiter" where
  "get_all_users_status L clock =
     (map (\<lambda>(uid, (window_start0, request_count0)).
             (uid, \<lparr>requests_made = request_count0,
                    requests_remaining = max_requests L - request_count0,
                    time_until_reset =
                      py_round2 (window_size L - (clock uid - window_start0))\<rparr>))
          (user_requests L),
      L)"

subsection \<open>The window size as a Python number\<close>

text \<open>
  The methods above take the attribute \<^verbatim>\<open>window_size\<close> as the real number it
  denotes. The object itself is a Python \<^verbatim>\<open>int\<close>, as annotated, or a
  \<^verbatim>\<open>float\<close>, and the two behave differently at one operation: in
  \<^verbatim>\<open>self.window_size - (current_time - window_start)\<close> the right operand is a
  float, so an int on the left is converted to a float first, and the conversion
  raises \<^verbatim>\<open>OverflowError\<close> when the int rounds beyond the largest float, that is
  from \<open>2 ^ 1024 - 2 ^ 970\<close> on in absolute value. The comparisons
  \<^verbatim>\<open>window_size <= 0\<close> and \<^verbatim>\<open>time_elapsed >= self.window_size\<close> compare an int
  with a float exactly and do not raise.
\<close>

datatype pynum = PyInt int | PyFloat real

fun num_val :: "pynum \<Rightarrow> real" where
  "num_val (PyInt n) = of_int n"
| "num_val (PyFloat x) = x"

definition int_to_float :: "int \<Rightarrow> error + real" where
  "int_to_float n =
     (if 2 ^ 1024 - 2 ^ 970 \<le> \<bar>n\<bar>
      then Inl (OverflowError ''int too large to convert to float'')
      else Inr (of_int n))"

text \<open>\<^verbatim>\<open>x - y\<close> for a float \<open>y\<close>.\<close>

fun sub_float :: "pynum \<Rightarrow> real \<Rightarrow> error + real" where
  "sub_float (PyFloat x) y = Inr (x - y)"
| "sub_float (PyInt n) y =
     (case int_to_float n of Inl e \<Rightarrow> Inl e | Inr x \<Rightarrow> Inr (x - y))"

text \<open>
  The object with the attribute as the Python number it is, and the object of the
  methods above that it denotes.
\<close>

record py_limiter =
  py_max_requests :: int
  py_window_size :: pynum
  py_user_requests :: store

definition val_of :: "py_limiter \<Rightarrow> limiter" where
  "val_of P = \<lparr>max_requests = py_max_requests P,
               window_size = num_val (py_window_size P),
               user_requests = py_user_requests P\<rparr>"

definition init_py :: "int \<Rightarrow> pynum \<Rightarrow> error + py_limiter" where
  "init_py max_requests' window_size' =
     (if max_requests' \<le> 0 then Inl (ValueError ''max_requests must be greater than 0'')
      else if num_val window_size' \<le> 0
      then Inl (ValueError ''window_size must be greater than 0'')
      else Inr \<lparr>py_max_requests = max_requests', py_window_size = window_size',
                py_user_requests = []\<rparr>)"

text \<open>
  \<^verbatim>\<open>get_status\<close> with the subtraction as Python does it. The dictionary has been
  read, and a missing key stored, before the subtraction, so the object afterwards is
  the same whether the call returns or raises.
\<close>

definition get_status_py ::
  "py_limiter \<Rightarrow> real \<Rightarrow> string \<Rightarrow> (error + status) \<times> py_limiter" where
  "get_status_py P current_time uid =
     (let ((window_start0, request_count0), d1) = getitem (py_user_requests P) uid;
          time_elapsed = current_time - window_start0;
          (window_start1, request_count1) =
            (if time_elapsed \<ge> num_val (py_window_size P) then (current_time, 0)
             else (window_start0, request_count0));
          remaining = py_max_requests P - request_count1
      in (case sub_float (py_window_size P) (current_time - window_start1) of
            Inl e \<Rightarrow> Inl e
          | Inr until_reset \<Rightarrow>
              Inr \<lparr>requests_made = request_count1,
                   requests_remaining = remaining,
                   time_until_reset = py_round2 until_reset,
                   user_id = uid,
                   window_start = window_start1,
                   limit = py_max_requests P,
                   status_window_size = num_val (py_window_size P)\<rparr>,
          P\<lparr>py_user_requests := d1\<rparr>))"

subsection \<open>Sequences of calls\<close>

datatype op =
    IsAllowed string
  | GetStatus string
  | ResetUser string
  | ResetAll
  | GetAllUsersStatus

datatype result =
    RBool bool
  | RStatus status
  | RNone
  | RAll "(string \<times> partial_status) list"

text \<open>
  One call at clock reading \<open>t\<close>. The bulk query takes the same reading for every
  entry here; it leaves the object as it is whatever the readings are.
\<close>

fun step :: "limiter \<Rightarrow> real \<times> op \<Rightarrow> result \<times> limiter" where
  "step L (t, IsAllowed k) = (let (b, L') = is_allowed L t k in (RBool b, L'))"
| "step L (t, GetStatus k) = (let (s, L') = get_status L t k in (RStatus s, L'))"
| "step L (t, ResetUser k) = (RNone, reset_user L k)"
| "step L (t, ResetAll) = (RNone, reset_all L)"
| "step L (t, GetAllUsersStatus) =
     (let (r, L') = get_all_users_status L (\<lambda>_. t) in (RAll r, L'))"

fun run :: "limiter \<Rightarrow> (real \<times> op) list \<Rightarrow> result list \<times> limiter" where
  "run L [] = ([], L)"
| "run L (e # es) =
     (let (r, L') = step L e; (rs, L'') = run L' es in (r # rs, L''))"

definition exec :: "limiter \<Rightarrow> (real \<times> op) list \<Rightarrow> limiter" where
  "exec L es = snd (run L es)"

text \<open>The stored state of a key, a missing key read as the default \<open>(0, 0)\<close>.\<close>

definition state_of :: "limiter \<Rightarrow> string \<Rightarrow> real \<times> int" where
  "state_of L k = (case map_of (user_requests L) k of Some v \<Rightarrow> v | None \<Rightarrow> (0, 0))"

text \<open>
  The results of the \<open>is_allowed\<close> calls on key \<open>k\<close> in a sequence of calls, in order.
\<close>

fun outcomes :: "string \<Rightarrow> limiter \<Rightarrow> (real \<times> op) list \<Rightarrow> bool list" where
  "outcomes k L [] = []"
| "outcomes k L (e # es) =
     (if snd e = IsAllowed k then [fst (is_allowed L (fst e) k)] else [])
       @ outcomes k (snd (step L e)) es"

text \<open>
  Two objects agree on a key when they have the same configuration and the same
  entry (or none) for the key.
\<close>

definition agree_on :: "string \<Rightarrow> limiter \<Rightarrow> limiter \<Rightarrow> bool" where
  "agree_on B L1 L2 \<longleftrightarrow>
     max_requests L1 = max_requests L2 \<and> window_size L1 = window_size L2 \<and>
     map_of (user_requests L1) B = map_of (user_requests L2) B"

text \<open>
  Every stored count lies between 0 and the limit.
\<close>

definition inv_store :: "limiter \<Rightarrow> bool" where
  "inv_store L \<longleftrightarrow>
     list_all (\<lambda>(k, ws, c). 0 \<le> c \<and> c \<le> max_requests L) (user_requests L)"

text \<open>
  The number of \<open>is_allowed\<close> calls on key \<open>k\<close> in a sequence of calls that return
  \<open>True\<close> at a clock reading in the interval from \<open>lo\<close> (included) to \<open>hi\<close> (excluded).
\<close>

fun admissions :: "limiter \<Rightarrow> string \<Rightarrow> real \<Rightarrow> real \<Rightarrow> (real \<times> op) list \<Rightarrow> nat" where
  "admissions L k lo hi [] = 0"
| "admissions L k lo hi (e # es) =
     (if snd e = IsAllowed k \<and> lo \<le> fst e \<and> fst e < hi \<and> fst (step L e) = RBool True
      then 1 else 0)
       + admissions (snd (step L e)) k lo hi es"

text \<open>The calls that reset key \<open>k\<close>.\<close>

definition resets :: "string \<Rightarrow> op \<Rightarrow> bool" where
  "resets k c \<longleftrightarrow> c = ResetUser k \<or> c = ResetAll"

section \<open>Basic facts\<close>

lemma init_Inr_iff:
  "init m w = Inr L \<longleftrightarrow>
     0 < m \<and> 0 < w \<and> L = \<lparr>max_requests = m, window_size = w, user_requests = []\<rparr>"
  by (auto simp: init_def)

lemma is_allowed_config:
  "max_requests (snd (is_allowed L t k)) = max_requests L"
  "window_size (snd (is_allowed L t k)) = window_size L"
  by (simp_all add: is_allowed_def Let_def split: prod.splits)

lemma get_status_config:
  "max_requests (snd (get_status L t k)) = max_requests L"
  "window_size (snd (get_status L t k)) = window_size L"
  by (simp_all add: get_status_def Let_def split: prod.splits)

text \<open>What \<^const>\<open>is_allowed\<close> does, by the state it finds.\<close>

lemma is_allowed_expired:
  assumes "0 < max_requests L" and "window_size L \<le> t - fst (state_of L k)"
  shows "is_allowed L t k =
           (True, L\<lparr>user_requests := AList.update k (t, 1) (user_requests L)\<rparr>)"
  using assms
  by (auto simp: is_allowed_def getitem_def state_of_def Let_def split: option.splits)

lemma is_allowed_admit:
  assumes "state_of L k = (ws, c)" and "t - ws < window_size L" and "c < max_requests L"
  shows "is_allowed L t k =
           (True, L\<lparr>user_requests := AList.update k (ws, c + 1) (user_requests L)\<rparr>)"
  using assms
  by (auto simp: is_allowed_def getitem_def state_of_def Let_def split: option.splits)

lemma is_allowed_deny:
  assumes "map_of (user_requests L) k = Some (ws, c)" and "t - ws < window_size L"
    and "max_requests L \<le> c"
  shows "is_allowed L t k = (False, L)"
  using assms
  by (simp add: is_allowed_def getitem_def Let_def)

lemma update_absent:
  "map_of d k = None \<Longrightarrow> AList.update k v d = d @ [(k, v)]"
  by (induction d) (auto split: if_splits)

lemma getitem_present:
  "map_of d k = Some v \<Longrightarrow> getitem d k = (v, d)"
  by (simp add: getitem_def)

lemma getitem_absent:
  "map_of d k = None \<Longrightarrow> getitem d k = ((0, 0), d @ [(k, (0, 0))])"
  by (simp add: getitem_def update_absent)


lemma limiter_same_store:
  "user_requests L = d \<Longrightarrow> L\<lparr>user_requests := d\<rparr> = L"
  by simp

section \<open>Construction\<close>

text \<open>
  The constructor raises exactly when \<open>max_requests \<le> 0\<close> or \<open>window_size \<le> 0\<close>, and
  then returns no object; otherwise it returns the object with the given configuration
  and an empty dictionary. The same holds with the window size as a Python number.
\<close>

lemma init_fails_iff:
  "((\<exists>e. init m w = Inl e) \<longleftrightarrow> m \<le> 0 \<or> w \<le> 0) \<and>
   ((\<exists>L. init m w = Inr L) \<longleftrightarrow> 0 < m \<and> 0 < w) \<and>
   (\<forall>L. init m w = Inr L \<longrightarrow>
      L = \<lparr>max_requests = m, window_size = w, user_requests = []\<rparr>)"
  by (auto simp: init_def)

lemma init_py_fails_iff:
  "((\<exists>e. init_py m w = Inl e) \<longleftrightarrow> m \<le> 0 \<or> num_val w \<le> 0) \<and>
   ((\<exists>P. init_py m w = Inr P) \<longleftrightarrow> 0 < m \<and> 0 < num_val w) \<and>
   (\<forall>P. init_py m w = Inr P \<longrightarrow>
      P = \<lparr>py_max_requests = m, py_window_size = w, py_user_requests = []\<rparr>)"
  by (auto simp: init_py_def)

lemma init_py_val:
  "init m (num_val w) = (case init_py m w of Inl e \<Rightarrow> Inl e | Inr P \<Rightarrow> Inr (val_of P))"
  by (simp add: init_def init_py_def val_of_def)

text \<open>
  Where the subtraction does not raise, \<open>get_status_py\<close> returns what \<open>get_status\<close>
  returns on the object denoted, and changes the dictionary in the same way; it raises
  exactly for an int window size out of the range of the floats.
\<close>

lemma sub_float_raises_iff:
  "(\<exists>e. sub_float w y = Inl e) \<longleftrightarrow> (\<exists>n. w = PyInt n \<and> 2 ^ 1024 - 2 ^ 970 \<le> \<bar>n\<bar>)"
  by (cases w) (auto simp: int_to_float_def)

lemma sub_float_val:
  "sub_float w y = Inr x \<Longrightarrow> x = num_val w - y"
  by (cases w) (auto simp: int_to_float_def split: if_splits)

lemma get_status_py_store:
  "val_of (snd (get_status_py P t k)) = snd (get_status (val_of P) t k)"
  by (simp add: get_status_py_def get_status_def val_of_def Let_def split: prod.splits)

lemma get_status_py_returns:
  assumes "fst (get_status_py P t k) = Inr st"
  shows "st = fst (get_status (val_of P) t k)"
proof -
  obtain v d1 where g: "getitem (py_user_requests P) k = (v, d1)"
    by (cases "getitem (py_user_requests P) k")
  obtain ws0 c0 where v: "v = (ws0, c0)" by (cases v)
  show ?thesis
  proof (cases "num_val (py_window_size P) \<le> t - ws0")
    case True
    with assms g v show ?thesis
      by (auto simp: get_status_py_def get_status_def val_of_def
          split: sum.splits dest: sub_float_val)
  next
    case False
    with assms g v show ?thesis
      by (auto simp: get_status_py_def get_status_def val_of_def
          split: sum.splits dest: sub_float_val)
  qed
qed

lemma get_status_py_raises_iff:
  "(\<exists>e. fst (get_status_py P t k) = Inl e) \<longleftrightarrow>
     (\<exists>n. py_window_size P = PyInt n \<and> 2 ^ 1024 - 2 ^ 970 \<le> \<bar>n\<bar>)"
proof -
  obtain v d1 where g: "getitem (py_user_requests P) k = (v, d1)"
    by (cases "getitem (py_user_requests P) k")
  obtain ws0 c0 where v: "v = (ws0, c0)" by (cases v)
  have "(\<exists>e. fst (get_status_py P t k) = Inl e) \<longleftrightarrow>
        (\<exists>e. sub_float (py_window_size P)
               (t - (if num_val (py_window_size P) \<le> t - ws0 then t else ws0)) = Inl e)"
    using g v by (auto simp: get_status_py_def split: sum.splits)
  then show ?thesis
    by (simp only: sub_float_raises_iff)
qed

text \<open>
  C5. The constructor raises exactly when \<open>max_requests \<le> 0\<close> or \<open>window_size \<le> 0\<close>
  (above). That no other method raises does not hold of the code: the constructor
  accepts the limit 5 with the int window size \<open>10 ^ 400\<close>, and on the object it
  returns, \<^verbatim>\<open>get_status\<close> raises \<^verbatim>\<open>OverflowError\<close> for every key and at every
  clock reading.
\<close>

theorem get_status_overflow:
  "init_py 5 (PyInt (10 ^ 400))
     = Inr \<lparr>py_max_requests = 5, py_window_size = PyInt (10 ^ 400),
            py_user_requests = []\<rparr> \<and>
   fst (get_status_py \<lparr>py_max_requests = 5, py_window_size = PyInt (10 ^ 400),
                       py_user_requests = []\<rparr> t k)
     = Inl (OverflowError ''int too large to convert to float'')"
proof -
  have big: "(2 :: int) ^ 1024 - 2 ^ 970 \<le> \<bar>10 ^ 400\<bar>"
    by simp
  have "sub_float (PyInt (10 ^ 400)) y
          = Inl (OverflowError ''int too large to convert to float'')" for y
    using big by (simp add: int_to_float_def)
  then show ?thesis
    by (simp add: init_py_def get_status_py_def getitem_def Let_def)
qed

section \<open>The admission check\<close>

text \<open>
  C3. When the window found for a key (an absent key read as \<open>(0, 0)\<close>) has expired at
  the clock reading of \<open>is_allowed\<close>, the call returns \<open>True\<close> whatever the count was,
  and leaves the key with the window started at that reading and the count 1.
\<close>

theorem is_allowed_after_expiry:
  assumes "0 < max_requests L" and "state_of L k = (ws, c)"
    and "window_size L \<le> t - ws"
  shows "fst (is_allowed L t k) = True \<and>
         map_of (user_requests (snd (is_allowed L t k))) k = Some (t, 1)"
proof -
  from assms have "window_size L \<le> t - fst (state_of L k)" by simp
  from is_allowed_expired [OF assms(1) this] show ?thesis
    by (simp add: update_conv')
qed

theorem is_allowed_after_expiry_witness:
  "fst (is_allowed \<lparr>max_requests = 5, window_size = 60,
                    user_requests = [(''alice'', (100, 5))]\<rparr> 160 ''alice'') = True \<and>
   map_of (user_requests (snd (is_allowed \<lparr>max_requests = 5, window_size = 60,
                    user_requests = [(''alice'', (100, 5))]\<rparr> 160 ''alice''))) ''alice''
     = Some (160, 1)"
  using is_allowed_after_expiry
    [of "\<lparr>max_requests = 5, window_size = 60, user_requests = [(''alice'', (100, 5))]\<rparr>"
        "''alice''" 100 5 160]
  by (simp add: state_of_def)

text \<open>
  C6. A call of \<open>is_allowed\<close> that returns \<open>False\<close> leaves the whole object, and so the
  dictionary, exactly as it was.
\<close>

theorem denial_commits_nothing:
  assumes "0 < max_requests L" and "\<not> fst (is_allowed L t k)"
  shows "snd (is_allowed L t k) = L"
  using assms
  by (auto simp: is_allowed_def getitem_def Let_def split: option.splits if_splits)

theorem denial_commits_nothing_witness:
  "\<not> fst (is_allowed \<lparr>max_requests = 5, window_size = 60,
                      user_requests = [(''alice'', (100, 5))]\<rparr> 120 ''alice'') \<and>
   snd (is_allowed \<lparr>max_requests = 5, window_size = 60,
                    user_requests = [(''alice'', (100, 5))]\<rparr> 120 ''alice'')
     = \<lparr>max_requests = 5, window_size = 60, user_requests = [(''alice'', (100, 5))]\<rparr>"
proof -
  let ?L = "\<lparr>max_requests = 5, window_size = 60,
             user_requests = [(''alice'', (100 :: real, 5 :: int))]\<rparr>"
  have d: "\<not> fst (is_allowed ?L 120 ''alice'')"
    by (simp add: is_allowed_def getitem_def)
  have "0 < max_requests ?L" by simp
  from denial_commits_nothing [OF this d] d show ?thesis by simp
qed

section \<open>The status query\<close>

lemma get_status_store:
  "user_requests (snd (get_status L t k)) =
     (case map_of (user_requests L) k of
        Some v \<Rightarrow> user_requests L
      | None \<Rightarrow> user_requests L @ [(k, (0, 0))])"
  by (simp add: get_status_def getitem_def update_absent Let_def
      split: option.splits prod.splits)

lemma get_status_fresh:
  assumes "state_of L k = (ws, c)" and "window_size L \<le> t - ws"
  shows "window_start (fst (get_status L t k)) = t"
    and "requests_made (fst (get_status L t k)) = 0"
    and "requests_remaining (fst (get_status L t k)) = max_requests L"
  using assms
  by (auto simp: get_status_def getitem_def state_of_def Let_def split: option.splits)

text \<open>
  C1, as the claim states it, fails: with the limit 5 and the window 60, the entry
  \<open>(100, 3)\<close> of alice has expired at the reading 200; \<open>get_status\<close> reports the window
  started at 200 with no request made, and the dictionary still holds \<open>(100, 3)\<close>.
\<close>

theorem get_status_reset_not_stored:
  "window_size \<lparr>max_requests = 5, window_size = 60,
                user_requests = [(''alice'', (100, 3))]\<rparr> \<le> 200 - 100 \<and>
   window_start (fst (get_status \<lparr>max_requests = 5, window_size = 60,
                user_requests = [(''alice'', (100, 3))]\<rparr> 200 ''alice'')) = 200 \<and>
   requests_made (fst (get_status \<lparr>max_requests = 5, window_size = 60,
                user_requests = [(''alice'', (100, 3))]\<rparr> 200 ''alice'')) = 0 \<and>
   map_of (user_requests (snd (get_status \<lparr>max_requests = 5, window_size = 60,
                user_requests = [(''alice'', (100, 3))]\<rparr> 200 ''alice''))) ''alice''
     = Some (100, 3) \<and>
   map_of (user_requests (snd (get_status \<lparr>max_requests = 5, window_size = 60,
                user_requests = [(''alice'', (100, 3))]\<rparr> 200 ''alice''))) ''alice''
     \<noteq> Some (200, 0)"
  by (simp add: get_status_def getitem_def)

text \<open>
  C1, amended. When the window found for a key has expired, \<open>get_status\<close> reports the
  fresh window to the caller (started at the reading, no request made, the whole limit
  remaining) and does not store it: a key that is present keeps its entry and the
  object is unchanged; a key that is absent is stored with the default \<open>(0, 0)\<close>.
\<close>

theorem get_status_expired_reports_fresh:
  assumes "state_of L k = (ws, c)" and "window_size L \<le> t - ws"
  shows "window_start (fst (get_status L t k)) = t \<and>
         requests_made (fst (get_status L t k)) = 0 \<and>
         requests_remaining (fst (get_status L t k)) = max_requests L \<and>
         state_of (snd (get_status L t k)) k = (ws, c) \<and>
         (map_of (user_requests L) k = Some (ws, c) \<longrightarrow> snd (get_status L t k) = L) \<and>
         (map_of (user_requests L) k = None \<longrightarrow>
            user_requests (snd (get_status L t k)) = user_requests L @ [(k, (0, 0))])"
proof -
  have "state_of (snd (get_status L t k)) k = (ws, c)"
    using assms(1)
    by (auto simp: state_of_def get_status_store split: option.splits)
  moreover have "snd (get_status L t k) = L" if "map_of (user_requests L) k = Some (ws, c)"
    using that by (simp add: get_status_def getitem_def Let_def split: prod.splits)
  moreover have "user_requests (snd (get_status L t k)) = user_requests L @ [(k, (0, 0))]"
    if "map_of (user_requests L) k = None"
    using that by (simp add: get_status_store)
  ultimately show ?thesis
    using get_status_fresh [OF assms] by simp
qed

theorem get_status_expired_reports_fresh_witness:
  "window_start (fst (get_status \<lparr>max_requests = 5, window_size = 60,
                user_requests = [(''alice'', (100, 3))]\<rparr> 200 ''alice'')) = 200 \<and>
   requests_made (fst (get_status \<lparr>max_requests = 5, window_size = 60,
                user_requests = [(''alice'', (100, 3))]\<rparr> 200 ''alice'')) = 0 \<and>
   requests_remaining (fst (get_status \<lparr>max_requests = 5, window_size = 60,
                user_requests = [(''alice'', (100, 3))]\<rparr> 200 ''alice'')) = 5 \<and>
   snd (get_status \<lparr>max_requests = 5, window_size = 60,
                user_requests = [(''alice'', (100, 3))]\<rparr> 200 ''alice'')
     = \<lparr>max_requests = 5, window_size = 60, user_requests = [(''alice'', (100, 3))]\<rparr>"
  using get_status_expired_reports_fresh
    [of "\<lparr>max_requests = 5, window_size = 60, user_requests = [(''alice'', (100, 3))]\<rparr>"
        "''alice''" 100 3 200]
  by (simp add: state_of_def)



section \<open>Resets\<close>



section \<open>The bulk query\<close>



section \<open>Scenarios\<close>

text \<open>
  C4. A limiter with the limit 5 and the window 60, a key not yet seen, and seven
  \<open>is_allowed\<close> calls on it, the first at a reading of at least 60 (so that the
  default window starting at 0 has expired, as it has at any present Unix time) and
  the others less than 60 after the first: the results are five times \<open>True\<close>, then
  twice \<open>False\<close>. A \<open>get_status\<close> after the fifth call, also within the window,
  reports no request remaining, and leaves the two last results as they are.
\<close>

theorem seven_calls_scenario:
  assumes "init 5 60 = Inr L0" and "60 \<le> t1"
    and "list_all (\<lambda>t. t - t1 < 60) [t2, t3, t4, t5, s, t6, t7]"
  shows "fst (run L0 [(t1, IsAllowed k), (t2, IsAllowed k), (t3, IsAllowed k),
                      (t4, IsAllowed k), (t5, IsAllowed k), (t6, IsAllowed k),
                      (t7, IsAllowed k)])
           = [RBool True, RBool True, RBool True, RBool True, RBool True,
              RBool False, RBool False] \<and>
         requests_remaining (fst (get_status
            (exec L0 [(t1, IsAllowed k), (t2, IsAllowed k), (t3, IsAllowed k),
                      (t4, IsAllowed k), (t5, IsAllowed k)]) s k)) = 0 \<and>
         map (\<lambda>r. case r of RBool b \<Rightarrow> Some b | _ \<Rightarrow> None)
           (fst (run L0 [(t1, IsAllowed k), (t2, IsAllowed k), (t3, IsAllowed k),
                      (t4, IsAllowed k), (t5, IsAllowed k), (s, GetStatus k),
                      (t6, IsAllowed k), (t7, IsAllowed k)]))
           = [Some True, Some True, Some True, Some True, Some True, None,
              Some False, Some False]"
proof -
  from assms(1) have L0: "L0 = \<lparr>max_requests = 5, window_size = 60, user_requests = []\<rparr>"
    by (simp add: init_Inr_iff)
  show ?thesis
    using assms(2,3) unfolding L0 exec_def
    by (simp add: is_allowed_def get_status_def getitem_def)
qed

theorem seven_calls_scenario_witness:
  "fst (run \<lparr>max_requests = 5, window_size = 60, user_requests = []\<rparr>
          [(1000, IsAllowed ''alice''), (1001, IsAllowed ''alice''),
           (1002, IsAllowed ''alice''), (1003, IsAllowed ''alice''),
           (1004, IsAllowed ''alice''), (1005, IsAllowed ''alice''),
           (1006, IsAllowed ''alice'')])
     = [RBool True, RBool True, RBool True, RBool True, RBool True,
        RBool False, RBool False] \<and>
   requests_remaining (fst (get_status
      (exec \<lparr>max_requests = 5, window_size = 60, user_requests = []\<rparr>
          [(1000, IsAllowed ''alice''), (1001, IsAllowed ''alice''),
           (1002, IsAllowed ''alice''), (1003, IsAllowed ''alice''),
           (1004, IsAllowed ''alice'')]) 1004 ''alice'')) = 0"
  using seven_calls_scenario
    [of "\<lparr>max_requests = 5, window_size = 60, user_requests = []\<rparr>"
        1000 1001 1002 1003 1004 1004 1005 1006 "''alice''"]
  by (simp add: init_def)

section \<open>Independence of keys\<close>

lemma is_allowed_frame:
  "A \<noteq> B \<Longrightarrow>
     map_of (user_requests (snd (is_allowed L t A))) B = map_of (user_requests L) B"
  by (simp add: is_allowed_def getitem_def Let_def update_conv'
      split: option.splits prod.splits)

lemma is_allowed_agree:
  assumes "max_requests L1 = max_requests L2" and "window_size L1 = window_size L2"
    and "map_of (user_requests L1) B = map_of (user_requests L2) B"
  shows "fst (is_allowed L1 t B) = fst (is_allowed L2 t B)"
    and "map_of (user_requests (snd (is_allowed L1 t B))) B
         = map_of (user_requests (snd (is_allowed L2 t B))) B"
  using assms
  by (auto simp: is_allowed_def getitem_def Let_def update_conv'
      split: option.splits prod.splits)

lemma step_config:
  "max_requests (snd (step L e)) = max_requests L"
  "window_size (snd (step L e)) = window_size L"
  by (cases e; cases "snd e";
      simp add: is_allowed_config get_status_config reset_user_def reset_all_def
        get_all_users_status_def split: prod.splits;
      metis is_allowed_config get_status_config snd_conv)+

lemma exec_Nil: "exec L [] = L"
  by (simp add: exec_def)

lemma exec_Cons: "exec L (e # es) = exec (snd (step L e)) es"
  by (simp add: exec_def split: prod.splits)

lemma step_snd:
  "snd (step L (t, IsAllowed k)) = snd (is_allowed L t k)"
  "snd (step L (t, GetStatus k)) = snd (get_status L t k)"
  by (simp_all add: case_prod_beta)

lemma get_status_map_of:
  "map_of (user_requests (snd (get_status L t k))) B =
     (if B = k then Some (state_of L k) else map_of (user_requests L) B)"
  by (auto simp: get_status_store state_of_def map_add_def split: option.splits)

lemma step_agree:
  assumes "agree_on B L1 L2"
  shows "agree_on B (snd (step L1 e)) (snd (step L2 e))"
proof -
  obtain t o' where e: "e = (t, o')" by (cases e)
  from assms have c: "max_requests L1 = max_requests L2" "window_size L1 = window_size L2"
    and m: "map_of (user_requests L1) B = map_of (user_requests L2) B"
    by (simp_all add: agree_on_def)
  have cfg: "max_requests (snd (step L1 e)) = max_requests (snd (step L2 e))"
    "window_size (snd (step L1 e)) = window_size (snd (step L2 e))"
    using c by (simp_all add: step_config)
  have "map_of (user_requests (snd (step L1 e))) B
        = map_of (user_requests (snd (step L2 e))) B"
  proof (cases o')
    case (IsAllowed k)
    show ?thesis
    proof (cases "k = B")
      case True
      with IsAllowed e is_allowed_agree(2) [OF c m, of t] show ?thesis
        by (simp add: case_prod_beta)
    next
      case False
      with IsAllowed e m is_allowed_frame [of k B] show ?thesis
        by (simp add: case_prod_beta)
    qed
  next
    case (GetStatus k)
    with e m show ?thesis
      by (auto simp: case_prod_beta get_status_map_of state_of_def)
  next
    case (ResetUser k)
    with e m show ?thesis by (simp add: reset_user_def update_conv')
  next
    case ResetAll
    with e show ?thesis by (simp add: reset_all_def)
  next
    case GetAllUsersStatus
    with e m show ?thesis by (simp add: get_all_users_status_def)
  qed
  with cfg show ?thesis by (simp add: agree_on_def)
qed

lemma step_other_key:
  assumes "snd e = IsAllowed k" and "k \<noteq> B"
  shows "agree_on B (snd (step L e)) L"
proof -
  obtain t where "e = (t, IsAllowed k)" using assms(1) by (cases e) simp
  then show ?thesis
    using assms(2) is_allowed_frame [of k B L t] is_allowed_config [of L t k]
    by (simp add: agree_on_def case_prod_beta)
qed

lemma agree_on_trans:
  "agree_on B L1 L2 \<Longrightarrow> agree_on B L2 L3 \<Longrightarrow> agree_on B L1 L3"
  by (simp add: agree_on_def)

lemma outcomes_filter:
  assumes "agree_on B L1 L2"
    and "\<forall>e \<in> set es. \<not> P e \<longrightarrow> (\<exists>k. snd e = IsAllowed k \<and> k \<noteq> B)"
  shows "outcomes B L1 es = outcomes B L2 (filter P es) \<and>
         agree_on B (exec L1 es) (exec L2 (filter P es))"
  using assms
proof (induction es arbitrary: L1 L2)
  case Nil
  then show ?case by (simp add: exec_Nil)
next
  case (Cons e es)
  from Cons.prems(2) have rest:
    "\<forall>e \<in> set es. \<not> P e \<longrightarrow> (\<exists>k. snd e = IsAllowed k \<and> k \<noteq> B)"
    by simp
  show ?case
  proof (cases "P e")
    case True
    from Cons.prems(1) have a: "agree_on B (snd (step L1 e)) (snd (step L2 e))"
      by (rule step_agree)
    from Cons.prems(1) have "fst (is_allowed L1 (fst e) B) = fst (is_allowed L2 (fst e) B)"
      by (intro is_allowed_agree(1)) (simp_all add: agree_on_def)
    with Cons.IH [OF a rest] True show ?thesis
      by (simp add: exec_Cons)
  next
    case False
    with Cons.prems(2) obtain k where k: "snd e = IsAllowed k" "k \<noteq> B"
      by auto
    from step_other_key [OF k] Cons.prems(1)
    have a: "agree_on B (snd (step L1 e)) L2"
      by (rule agree_on_trans)
    from Cons.IH [OF a rest] False k show ?thesis
      by (simp add: exec_Cons)
  qed
qed

lemma agree_on_refl: "agree_on B L L"
  by (simp add: agree_on_def)

text \<open>
  C9. For distinct keys \<open>A\<close> and \<open>B\<close>: one \<open>is_allowed\<close> call on \<open>A\<close> leaves the
  entry of \<open>B\<close> as it is; and in any sequence of calls, taking out the \<open>is_allowed\<close>
  calls on \<open>A\<close> changes neither the results of the \<open>is_allowed\<close> calls on \<open>B\<close> nor the
  entry of \<open>B\<close> at the end. With the limit 5, however the \<open>is_allowed\<close> calls of the
  keys are interleaved, a key not yet seen that is called six times within one
  window (the first reading at least the window size, the later ones less than a
  window after the first) gets \<open>True\<close> five times and then \<open>False\<close>; so both \<open>A\<close> and
  \<open>B\<close> do.
\<close>

theorem key_independence:
  assumes "A \<noteq> B"
  shows "map_of (user_requests (snd (is_allowed L t A))) B = map_of (user_requests L) B \<and>
         outcomes B L es = outcomes B L (filter (\<lambda>e. snd e \<noteq> IsAllowed A) es) \<and>
         map_of (user_requests (exec L es)) B
           = map_of (user_requests (exec L (filter (\<lambda>e. snd e \<noteq> IsAllowed A) es))) B \<and>
         (init 5 w = Inr L0 \<and>
          list_all (\<lambda>e. case snd e of IsAllowed k \<Rightarrow> True | _ \<Rightarrow> False) cs \<and>
          filter (\<lambda>e. snd e = IsAllowed A) cs
            = map (\<lambda>t. (t, IsAllowed A)) [a1, a2, a3, a4, a5, a6] \<and>
          filter (\<lambda>e. snd e = IsAllowed B) cs
            = map (\<lambda>t. (t, IsAllowed B)) [b1, b2, b3, b4, b5, b6] \<and>
          w \<le> a1 \<and> list_all (\<lambda>t. t - a1 < w) [a2, a3, a4, a5, a6] \<and>
          w \<le> b1 \<and> list_all (\<lambda>t. t - b1 < w) [b2, b3, b4, b5, b6]
          \<longrightarrow> outcomes A L0 cs = [True, True, True, True, True, False] \<and>
              outcomes B L0 cs = [True, True, True, True, True, False])"
proof -
  have one: "map_of (user_requests (snd (is_allowed L t A))) B = map_of (user_requests L) B"
    using assms by (rule is_allowed_frame)
  have "\<forall>e \<in> set es. \<not> snd e \<noteq> IsAllowed A \<longrightarrow> (\<exists>k. snd e = IsAllowed k \<and> k \<noteq> B)"
    using assms by simp
  from outcomes_filter [OF agree_on_refl this]
  have two: "outcomes B L es = outcomes B L (filter (\<lambda>e. snd e \<noteq> IsAllowed A) es)"
    and three: "map_of (user_requests (exec L es)) B
           = map_of (user_requests (exec L (filter (\<lambda>e. snd e \<noteq> IsAllowed A) es))) B"
    by (simp_all add: agree_on_def)
  have six: "outcomes K L0 cs = [True, True, True, True, True, False]"
    if L0: "init 5 w = Inr L0"
      and calls: "list_all (\<lambda>e. case snd e of IsAllowed k \<Rightarrow> True | _ \<Rightarrow> False) cs"
      and mine: "filter (\<lambda>e. snd e = IsAllowed K) cs
                   = map (\<lambda>t. (t, IsAllowed K)) [k1, k2, k3, k4, k5, k6]"
      and times: "w \<le> k1" "list_all (\<lambda>t. t - k1 < w) [k2, k3, k4, k5, k6]"
    for K k1 k2 k3 k4 k5 k6
  proof -
    from L0 have L0': "L0 = \<lparr>max_requests = 5, window_size = w, user_requests = []\<rparr>"
      by (simp add: init_Inr_iff)
    have "\<exists>k. snd e = IsAllowed k \<and> k \<noteq> K" if "e \<in> set cs" and "snd e \<noteq> IsAllowed K" for e
    proof -
      from calls that(1) obtain k where "snd e = IsAllowed k"
        by (cases "snd e") (auto simp: list_all_iff)
      with that(2) show ?thesis by simp
    qed
    then have "\<forall>e \<in> set cs. \<not> snd e = IsAllowed K \<longrightarrow> (\<exists>k. snd e = IsAllowed k \<and> k \<noteq> K)"
      by blast
    from outcomes_filter [OF agree_on_refl this]
    have "outcomes K L0 cs = outcomes K L0 (filter (\<lambda>e. snd e = IsAllowed K) cs)"
      by simp
    also have "\<dots> = [True, True, True, True, True, False]"
      unfolding mine L0' using times
      by (simp add: is_allowed_def getitem_def)
    finally show ?thesis .
  qed
  from one two three six [of A a1 a2 a3 a4 a5 a6] six [of B b1 b2 b3 b4 b5 b6]
  show ?thesis by blast
qed

theorem key_independence_witness:
  "map_of (user_requests (snd (is_allowed
       \<lparr>max_requests = 5, window_size = 60, user_requests = [(''bob'', (100, 2))]\<rparr>
       110 ''alice''))) ''bob'' = Some (100, 2) \<and>
   outcomes ''alice'' \<lparr>max_requests = 5, window_size = 60, user_requests = []\<rparr>
     [(100, IsAllowed ''alice''), (100, IsAllowed ''bob''), (101, IsAllowed ''alice''),
      (101, IsAllowed ''bob''), (102, IsAllowed ''alice''), (102, IsAllowed ''bob''),
      (103, IsAllowed ''alice''), (103, IsAllowed ''bob''), (104, IsAllowed ''alice''),
      (104, IsAllowed ''bob''), (105, IsAllowed ''alice''), (105, IsAllowed ''bob'')]
     = [True, True, True, True, True, False] \<and>
   outcomes ''bob'' \<lparr>max_requests = 5, window_size = 60, user_requests = []\<rparr>
     [(100, IsAllowed ''alice''), (100, IsAllowed ''bob''), (101, IsAllowed ''alice''),
      (101, IsAllowed ''bob''), (102, IsAllowed ''alice''), (102, IsAllowed ''bob''),
      (103, IsAllowed ''alice''), (103, IsAllowed ''bob''), (104, IsAllowed ''alice''),
      (104, IsAllowed ''bob''), (105, IsAllowed ''alice''), (105, IsAllowed ''bob'')]
     = [True, True, True, True, True, False]"
  using key_independence
    [of "''alice''" "''bob''"
        "\<lparr>max_requests = 5, window_size = 60, user_requests = [(''bob'', (100, 2))]\<rparr>"
        110 "[]" 60 "\<lparr>max_requests = 5, window_size = 60, user_requests = []\<rparr>"
        "[(100, IsAllowed ''alice''), (100, IsAllowed ''bob''), (101, IsAllowed ''alice''),
      (101, IsAllowed ''bob''), (102, IsAllowed ''alice''), (102, IsAllowed ''bob''),
      (103, IsAllowed ''alice''), (103, IsAllowed ''bob''), (104, IsAllowed ''alice''),
      (104, IsAllowed ''bob''), (105, IsAllowed ''alice''), (105, IsAllowed ''bob'')]"
        100 101 102 103 104 105 100 101 102 103 104 105]
  by (simp add: init_def)

section \<open>The limit\<close>

subsection \<open>The stored counts\<close>

lemma list_all_update:
  "list_all P d \<Longrightarrow> P (k, v) \<Longrightarrow> list_all P (AList.update k v d)"
  by (induction d) auto

lemma inv_store_lookup:
  assumes "inv_store L" and "map_of (user_requests L) k = Some (ws, c)"
  shows "0 \<le> c \<and> c \<le> max_requests L"
proof -
  from assms(2) have "(k, ws, c) \<in> set (user_requests L)"
    by (rule map_of_SomeD)
  with assms(1) show ?thesis
    by (auto simp: inv_store_def list_all_iff)
qed

lemma inv_store_state_of:
  assumes "inv_store L" and "0 < max_requests L"
  shows "0 \<le> snd (state_of L k) \<and> snd (state_of L k) \<le> max_requests L"
proof (cases "map_of (user_requests L) k")
  case None
  with assms(2) show ?thesis by (simp add: state_of_def)
next
  case (Some v)
  obtain ws c where "v = (ws, c)" by (cases v)
  with Some inv_store_lookup [OF assms(1), of k ws c] show ?thesis
    by (simp add: state_of_def)
qed

lemma is_allowed_inv:
  assumes "0 < max_requests L" and "inv_store L"
  shows "inv_store (snd (is_allowed L t k))"
proof -
  obtain ws c where st: "state_of L k = (ws, c)" by (cases "state_of L k")
  from inv_store_state_of [OF assms(2,1), of k] st have c: "0 \<le> c" "c \<le> max_requests L"
    by simp_all
  let ?P = "\<lambda>(k, ws, c). 0 \<le> c \<and> c \<le> max_requests L"
  from assms(2) have d: "list_all ?P (user_requests L)"
    by (simp add: inv_store_def)
  consider "window_size L \<le> t - ws" | "t - ws < window_size L" "c < max_requests L"
    | "t - ws < window_size L" "max_requests L \<le> c"
    by linarith
  then show ?thesis
  proof cases
    case 1
    with st have "window_size L \<le> t - fst (state_of L k)" by simp
    from is_allowed_expired [OF assms(1) this] assms(1) d show ?thesis
      by (simp add: inv_store_def list_all_update)
  next
    case 2
    from is_allowed_admit [OF st 2] c 2(2) d show ?thesis
      by (simp add: inv_store_def list_all_update)
  next
    case 3
    with c have "c = max_requests L" by simp
    with assms(1) st obtain "map_of (user_requests L) k = Some (ws, c)"
      by (auto simp: state_of_def split: option.splits)
    from is_allowed_deny [OF this 3] assms(2) show ?thesis by simp
  qed
qed

lemma step_inv:
  assumes "0 < max_requests L" and "inv_store L"
  shows "inv_store (snd (step L e))"
proof -
  obtain t c where e: "e = (t, c)" by (cases e)
  show ?thesis
  proof (cases c)
    case (IsAllowed k)
    with e is_allowed_inv [OF assms, of t k] show ?thesis
      by (simp add: case_prod_beta)
  next
    case (GetStatus k)
    have "max_requests (snd (get_status L t k)) = max_requests L"
      by (rule get_status_config)
    with GetStatus e assms show ?thesis
      by (simp add: case_prod_beta inv_store_def get_status_store split: option.splits)
  next
    case (ResetUser k)
    with e assms show ?thesis
      by (simp add: inv_store_def reset_user_def list_all_update)
  next
    case ResetAll
    with e show ?thesis by (simp add: inv_store_def reset_all_def)
  next
    case GetAllUsersStatus
    with e assms(2) show ?thesis by (simp add: get_all_users_status_def)
  qed
qed

lemma exec_inv:
  "0 < max_requests L \<Longrightarrow> inv_store L \<Longrightarrow> inv_store (exec L es)"
proof (induction es arbitrary: L)
  case Nil
  then show ?case by (simp add: exec_Nil)
next
  case (Cons e es)
  from Cons.prems have "inv_store (snd (step L e))" by (rule step_inv)
  moreover from Cons.prems(1) have "0 < max_requests (snd (step L e))"
    by (simp add: step_config)
  ultimately show ?case by (simp add: exec_Cons Cons.IH)
qed

subsection \<open>Admissions within a window\<close>

lemma exec_append: "exec L (xs @ ys) = exec (exec L xs) ys"
  by (induction xs arbitrary: L) (simp_all add: exec_Nil exec_Cons)

lemma admissions_append:
  "admissions L k lo hi (xs @ ys)
     = admissions L k lo hi xs + admissions (exec L xs) k lo hi ys"
  by (induction xs arbitrary: L) (simp_all add: exec_Nil exec_Cons)

lemma exec_config:
  "max_requests (exec L es) = max_requests L"
  "window_size (exec L es) = window_size L"
  by (induction es arbitrary: L) (simp_all add: exec_Nil exec_Cons step_config)

lemma admissions_late:
  "list_all (\<lambda>e. hi \<le> fst e) es \<Longrightarrow> admissions L k lo hi es = 0"
  by (induction es arbitrary: L) auto

lemma step_fst_IsAllowed:
  "fst (step L (t, IsAllowed k)) = RBool (fst (is_allowed L t k))"
  by (simp add: case_prod_beta)

text \<open>The three ways of \<^const>\<open>is_allowed\<close>, on the state it finds for the key.\<close>

lemma is_allowed_state:
  assumes "0 < max_requests L" and "state_of L k = (ws, c)"
  shows "window_size L \<le> t - ws \<Longrightarrow>
           fst (is_allowed L t k) \<and> state_of (snd (is_allowed L t k)) k = (t, 1)"
    and "t - ws < window_size L \<Longrightarrow> c < max_requests L \<Longrightarrow>
           fst (is_allowed L t k) \<and> state_of (snd (is_allowed L t k)) k = (ws, c + 1)"
    and "t - ws < window_size L \<Longrightarrow> max_requests L \<le> c \<Longrightarrow>
           \<not> fst (is_allowed L t k) \<and> state_of (snd (is_allowed L t k)) k = (ws, c)"
proof -
  show "fst (is_allowed L t k) \<and> state_of (snd (is_allowed L t k)) k = (t, 1)"
    if "window_size L \<le> t - ws"
  proof -
    from that assms(2) have "window_size L \<le> t - fst (state_of L k)" by simp
    from is_allowed_expired [OF assms(1) this] show ?thesis
      by (simp add: state_of_def update_conv')
  qed
  show "fst (is_allowed L t k) \<and> state_of (snd (is_allowed L t k)) k = (ws, c + 1)"
    if "t - ws < window_size L" and "c < max_requests L"
    using is_allowed_admit [OF assms(2) that]
    by (simp add: state_of_def update_conv')
  show "\<not> fst (is_allowed L t k) \<and> state_of (snd (is_allowed L t k)) k = (ws, c)"
    if "t - ws < window_size L" and "max_requests L \<le> c"
  proof -
    from assms that(2) have "map_of (user_requests L) k = Some (ws, c)"
      by (auto simp: state_of_def split: option.splits)
    from is_allowed_deny [OF this that] assms(2) show ?thesis by simp
  qed
qed

lemma step_state_of_other:
  assumes "c \<noteq> IsAllowed k" and "\<not> resets k c"
  shows "state_of (snd (step L (t, c))) k = state_of L k"
proof (cases c)
  case (IsAllowed k')
  with assms(1) have "k' \<noteq> k" by simp
  from is_allowed_frame [OF this] IsAllowed show ?thesis
    by (simp add: state_of_def case_prod_beta)
next
  case (GetStatus k')
  then show ?thesis
    by (simp add: state_of_def case_prod_beta get_status_map_of split: option.splits)
next
  case (ResetUser k')
  with assms(2) have "k' \<noteq> k" by (simp add: resets_def)
  with ResetUser show ?thesis
    by (simp add: state_of_def reset_user_def update_conv')
next
  case ResetAll
  with assms(2) show ?thesis by (simp add: resets_def)
next
  case GetAllUsersStatus
  then show ?thesis by (simp add: state_of_def get_all_users_status_def)
qed

text \<open>
  Forwards: from a state in which the key has the window \<open>ws\<close> and the count \<open>c\<close>,
  later calls at non-decreasing readings admit at most \<open>max_requests - c\<close> more within
  the window.
\<close>

lemma admissions_forward:
  assumes "0 < max_requests L" and "state_of L k = (ws, c)" and "c \<le> max_requests L"
    and "sorted (map fst es)" and "list_all (\<lambda>e. \<not> resets k (snd e)) es"
  shows "int (admissions L k ws (ws + window_size L) es) + c \<le> max_requests L"
  using assms
proof (induction es arbitrary: L c)
  case Nil
  then show ?case by simp
next
  case (Cons e es)
  obtain t a where e: "e = (t, a)" by (cases e)
  let ?L = "snd (step L e)"
  have cfg: "max_requests ?L = max_requests L" "window_size ?L = window_size L"
    by (rule step_config)+
  from Cons.prems(4) have sorted: "sorted (map fst es)" and later: "\<forall>x \<in> set es. t \<le> fst x"
    by (simp_all add: e)
  from Cons.prems(5) have nores: "list_all (\<lambda>e. \<not> resets k (snd e)) es"
    and nores_e: "\<not> resets k a"
    by (simp_all add: e)
  have IH: "int (admissions ?L k ws (ws + window_size L) es) + c' \<le> max_requests L"
    if "state_of ?L k = (ws, c')" and "c' \<le> max_requests L" for c'
    using Cons.IH [of ?L c'] that Cons.prems(1) sorted nores by (simp add: cfg)
  have adm: "admissions L k lo hi (e # es) =
      (if a = IsAllowed k \<and> lo \<le> t \<and> t < hi \<and> fst (step L e) = RBool True then 1 else 0)
        + admissions ?L k lo hi es" for lo hi
    by (simp add: e)
  show ?case
  proof (cases "a = IsAllowed k")
    case False
    from step_state_of_other [OF False nores_e, of L t] Cons.prems(2)
    have "state_of ?L k = (ws, c)" by (simp add: e)
    from IH [OF this Cons.prems(3)] False show ?thesis
      unfolding adm by simp
  next
    case True
    then have step: "?L = snd (is_allowed L t k)"
      "fst (step L e) = RBool (fst (is_allowed L t k))"
      by (simp_all add: e case_prod_beta)
    consider "window_size L \<le> t - ws" | "t - ws < window_size L" "c < max_requests L"
      | "t - ws < window_size L" "max_requests L \<le> c"
      by linarith
    then show ?thesis
    proof cases
      case 1
      with later have "list_all (\<lambda>x. ws + window_size L \<le> fst x) es"
        by (auto simp: list_all_iff)
      then have "admissions ?L k ws (ws + window_size L) es = 0"
        by (rule admissions_late)
      with 1 Cons.prems(3) show ?thesis
        unfolding adm by simp
    next
      case 2
      from is_allowed_state(2) [OF Cons.prems(1,2) 2]
      have "state_of ?L k = (ws, c + 1)" by (simp add: step)
      from IH [OF this] 2(2) show ?thesis
        unfolding adm by simp
    next
      case 3
      from is_allowed_state(3) [OF Cons.prems(1,2) 3]
      have "\<not> fst (is_allowed L t k)" and "state_of ?L k = (ws, c)"
        by (simp_all add: step)
      with IH [OF this(2) Cons.prems(3)] step(2) show ?thesis
        unfolding adm by simp
    qed
  qed
qed

text \<open>
  Backwards: after any calls without a reset of the key, the admissions within the
  key's current window are at most its stored count, and none was made at a reading
  at or after the end of that window.
\<close>

lemma admissions_backward:
  assumes "0 < max_requests L0" and "0 < window_size L0" and "user_requests L0 = []"
    and "list_all (\<lambda>e. \<not> resets k (snd e)) es"
  shows "int (admissions L0 k (fst (state_of (exec L0 es) k))
                (fst (state_of (exec L0 es) k) + window_size L0) es)
           \<le> snd (state_of (exec L0 es) k) \<and>
         (\<forall>lo hi. fst (state_of (exec L0 es) k) + window_size L0 \<le> lo \<longrightarrow>
            admissions L0 k lo hi es = 0)"
  using assms(4)
proof (induction es rule: rev_induct)
  case Nil
  from assms(3) show ?case
    by (simp add: exec_Nil state_of_def)
next
  case (snoc e es)
  obtain t a where e: "e = (t, a)" by (cases e)
  let ?L = "exec L0 es"
  let ?L' = "snd (step ?L e)"
  let ?w = "window_size L0"
  obtain ws c where st: "state_of ?L k = (ws, c)" by (cases "state_of ?L k")
  have cfg: "max_requests ?L = max_requests L0" "window_size ?L = ?w"
    by (rule exec_config)+
  from snoc.prems have nores: "list_all (\<lambda>e. \<not> resets k (snd e)) es"
    and nores_e: "\<not> resets k a"
    by (simp_all add: e)
  from snoc.IH [OF nores] st
  have IH1: "int (admissions L0 k ws (ws + ?w) es) \<le> c"
    and IH2: "\<And>lo hi. ws + ?w \<le> lo \<Longrightarrow> admissions L0 k lo hi es = 0"
    by simp_all
  have ex: "exec L0 (es @ [e]) = ?L'"
    by (simp add: exec_append exec_Cons exec_Nil)
  have adm: "admissions L0 k lo hi (es @ [e]) =
      admissions L0 k lo hi es +
      (if a = IsAllowed k \<and> lo \<le> t \<and> t < hi \<and> fst (step ?L e) = RBool True then 1 else 0)"
    for lo hi
    by (simp add: admissions_append e)
  show ?case
  proof (cases "a = IsAllowed k")
    case False
    from step_state_of_other [OF False nores_e, of ?L t] st
    have "state_of ?L' k = (ws, c)" by (simp add: e)
    with False IH1 IH2 show ?thesis
      by (simp add: ex adm)
  next
    case True
    then have step: "?L' = snd (is_allowed ?L t k)"
      "fst (step ?L e) = RBool (fst (is_allowed ?L t k))"
      by (simp_all add: e case_prod_beta)
    from assms(1) have pos: "0 < max_requests ?L" by (simp add: cfg)
    consider "?w \<le> t - ws" | "t - ws < ?w" "c < max_requests L0"
      | "t - ws < ?w" "max_requests L0 \<le> c"
      by linarith
    then show ?thesis
    proof cases
      case 1
      then have "window_size ?L \<le> t - ws" by (simp add: cfg)
      from is_allowed_state(1) [OF pos st this]
      have s': "state_of ?L' k = (t, 1)" by (simp add: step)
      from 1 have "ws + ?w \<le> t" by simp
      from IH2 [OF this] have a1: "admissions L0 k t (t + ?w) es = 0" .
      have a2: "admissions L0 k lo hi es = 0" if "t + ?w \<le> lo" for lo hi
      proof -
        from that 1 assms(2) have "ws + ?w \<le> lo" by simp
        then show ?thesis by (rule IH2)
      qed
      from a1 a2 assms(2) show ?thesis
        by (simp add: ex adm s')
    next
      case 2
      then have "t - ws < window_size ?L" "c < max_requests ?L" by (simp_all add: cfg)
      from is_allowed_state(2) [OF pos st this]
      have s': "state_of ?L' k = (ws, c + 1)" by (simp add: step)
      from IH1 IH2 2(1) show ?thesis
        by (simp add: ex adm s')
    next
      case 3
      then have "t - ws < window_size ?L" "max_requests ?L \<le> c" by (simp_all add: cfg)
      from is_allowed_state(3) [OF pos st this]
      have "\<not> fst (is_allowed ?L t k)" and "state_of ?L' k = (ws, c)"
        by (simp_all add: step)
      with IH1 IH2 step show ?thesis
        by (simp add: ex adm)
    qed
  qed
qed

text \<open>
  C2, as the claim states it for every sequence of calls, fails on the second part:
  with the limit 5 and the window 60, five \<open>is_allowed\<close> calls on alice at the reading
  100 record the window start 100 with the count 5; after \<open>reset_user\<close>, five more
  calls at the reading 101 are admitted. Ten calls return \<open>True\<close> at readings between
  100 and 160.
\<close>

theorem reset_exceeds_window_limit:
  "init 5 60 = Inr \<lparr>max_requests = 5, window_size = 60, user_requests = []\<rparr> \<and>
   map_of (user_requests (exec \<lparr>max_requests = 5, window_size = 60, user_requests = []\<rparr>
      [(100, IsAllowed ''alice''), (100, IsAllowed ''alice''), (100, IsAllowed ''alice''),
       (100, IsAllowed ''alice''), (100, IsAllowed ''alice'')])) ''alice'' = Some (100, 5) \<and>
   sorted (map fst
      [(100, IsAllowed ''alice''), (100, IsAllowed ''alice''), (100, IsAllowed ''alice''),
       (100, IsAllowed ''alice''), (100, IsAllowed ''alice''), (100 :: real, ResetUser ''alice''),
       (101, IsAllowed ''alice''), (101, IsAllowed ''alice''), (101, IsAllowed ''alice''),
       (101, IsAllowed ''alice''), (101, IsAllowed ''alice'')]) \<and>
   admissions \<lparr>max_requests = 5, window_size = 60, user_requests = []\<rparr> ''alice''
      100 (100 + 60)
      [(100, IsAllowed ''alice''), (100, IsAllowed ''alice''), (100, IsAllowed ''alice''),
       (100, IsAllowed ''alice''), (100, IsAllowed ''alice''), (100, ResetUser ''alice''),
       (101, IsAllowed ''alice''), (101, IsAllowed ''alice''), (101, IsAllowed ''alice''),
       (101, IsAllowed ''alice''), (101, IsAllowed ''alice'')] = 10 \<and>
   \<not> int (admissions \<lparr>max_requests = 5, window_size = 60, user_requests = []\<rparr> ''alice''
      100 (100 + 60)
      [(100, IsAllowed ''alice''), (100, IsAllowed ''alice''), (100, IsAllowed ''alice''),
       (100, IsAllowed ''alice''), (100, IsAllowed ''alice''), (100, ResetUser ''alice''),
       (101, IsAllowed ''alice''), (101, IsAllowed ''alice''), (101, IsAllowed ''alice''),
       (101, IsAllowed ''alice''), (101, IsAllowed ''alice'')])
     \<le> max_requests \<lparr>max_requests = 5, window_size = 60, user_requests = []\<rparr>"
  by (simp add: init_def exec_def is_allowed_def getitem_def reset_user_def)

text \<open>
  C2, amended. For a limiter built by the constructor and every sequence of calls,
  every stored count lies between 0 and the limit. For a sequence of calls at
  non-decreasing clock readings with no \<open>reset_user\<close> on the key and no \<open>reset_all\<close>,
  and any window start stored for the key after some of the calls, the \<open>is_allowed\<close>
  calls on the key that return \<open>True\<close> at a reading within one window size from that
  start are at most the limit, over the whole sequence.
\<close>

theorem window_limit:
  assumes "init m w = Inr L0"
  shows "inv_store (exec L0 es) \<and>
         (sorted (map fst (pre @ suf)) \<and>
          list_all (\<lambda>e. \<not> resets k (snd e)) (pre @ suf) \<and>
          map_of (user_requests (exec L0 pre)) k = Some (ws, c)
          \<longrightarrow> int (admissions L0 k ws (ws + w) (pre @ suf)) \<le> m)"
proof -
  from assms have m: "0 < max_requests L0" "max_requests L0 = m"
    and w: "0 < window_size L0" "window_size L0 = w"
    and empty: "user_requests L0 = []"
    by (auto simp: init_Inr_iff)
  from empty have "inv_store L0" by (simp add: inv_store_def)
  with m(1) have inv: "inv_store (exec L0 xs)" for xs
    by (rule exec_inv)
  have "int (admissions L0 k ws (ws + w) (pre @ suf)) \<le> m"
    if srt: "sorted (map fst (pre @ suf))"
      and nores: "list_all (\<lambda>e. \<not> resets k (snd e)) (pre @ suf)"
      and stored: "map_of (user_requests (exec L0 pre)) k = Some (ws, c)"
  proof -
    let ?L = "exec L0 pre"
    from stored have st: "state_of ?L k = (ws, c)" by (simp add: state_of_def)
    from inv_store_lookup [OF inv stored] have c: "c \<le> max_requests ?L"
      by (simp add: exec_config)
    from nores have n1: "list_all (\<lambda>e. \<not> resets k (snd e)) pre"
      and n2: "list_all (\<lambda>e. \<not> resets k (snd e)) suf"
      by simp_all
    from srt have s2: "sorted (map fst suf)"
      by (simp add: sorted_append)
    from admissions_backward [OF m(1) w(1) empty n1] st w(2)
    have before: "int (admissions L0 k ws (ws + w) pre) \<le> c" by simp
    have "0 < max_requests ?L" using m(1) by (simp add: exec_config)
    from admissions_forward [OF this st c s2 n2]
    have "int (admissions ?L k ws (ws + w) suf) + c \<le> m"
      by (simp add: exec_config w(2) m(2))
    with before show ?thesis
      by (simp add: admissions_append)
  qed
  with inv show ?thesis by blast
qed

theorem window_limit_witness:
  "inv_store (exec \<lparr>max_requests = 5, window_size = 60, user_requests = []\<rparr>
      [(100, IsAllowed ''alice''), (100, ResetUser ''bob''), (101, IsAllowed ''alice'')]) \<and>
   int (admissions \<lparr>max_requests = 5, window_size = 60, user_requests = []\<rparr> ''alice''
      100 (100 + 60)
      ([(100, IsAllowed ''alice''), (101, IsAllowed ''alice''), (102, IsAllowed ''alice''),
        (103, IsAllowed ''alice''), (104, IsAllowed ''alice'')] @
       [(110, IsAllowed ''alice''), (120, GetStatus ''bob''), (170, IsAllowed ''alice'')]))
     \<le> 5"
  using window_limit
    [of 5 60 "\<lparr>max_requests = 5, window_size = 60, user_requests = []\<rparr>"
        "[(100, IsAllowed ''alice''), (100, ResetUser ''bob''), (101, IsAllowed ''alice'')]"
        "[(100, IsAllowed ''alice''), (101, IsAllowed ''alice''), (102, IsAllowed ''alice''),
          (103, IsAllowed ''alice''), (104, IsAllowed ''alice'')]"
        "[(110, IsAllowed ''alice''), (120, GetStatus ''bob''), (170, IsAllowed ''alice'')]"
        "''alice''" 100 5]
  by (simp add: init_def exec_def is_allowed_def getitem_def resets_def)

end
